theory Spec2Isabelle
  imports Main "HOL-Library.Word"
begin

section \<open>The main loop of the background services and the 1fichier resolver\<close>

text \<open>
  Two source files are embedded here.

  \<^item> \<^verbatim>\<open>src/main/services/main-loop.ts\<close>: \<^verbatim>\<open>startMainLoop\<close>, an \<^verbatim>\<open>async\<close> function
    whose body is \<^verbatim>\<open>while (true) { await Promise.allSettled([...five calls...]);
    await sleep(1500); }\<close>.
  \<^item> \<^verbatim>\<open>src/main/services/hosters/fichier.ts\<close>: \<^verbatim>\<open>FichierApi.getDownloadUrl\<close>, an
    \<^verbatim>\<open>async\<close> function whose body is \<^verbatim>\<open>return url;\<close>.

  Time is logical: a clock in milliseconds that advances only while the loop is suspended
  in an \<^verbatim>\<open>await\<close>. The five monitors are imported from modules that are not part of
  the two files; what each of their calls does is a parameter of the model (a \<open>world\<close>).
\<close>

subsection \<open>Promises\<close>

text \<open>
  The final state of a promise: fulfilled with a value or rejected with a reason. An
  exception thrown in the body of an \<^verbatim>\<open>async\<close> function is a rejection of the promise
  the call returned.
\<close>

datatype ('r, 'a) settled = Fulfilled 'a | Rejected 'r

text \<open>
  A promise as its creator sees it: it settles a number of milliseconds after it was
  created, or it stays pending for ever.
\<close>

datatype ('r, 'a) promise = Settles nat "('r, 'a) settled" | Pending

subsection \<open>The resolver: \<^verbatim>\<open>FichierApi.getDownloadUrl\<close>\<close>

text \<open>A JavaScript string is a sequence of 16-bit code units.\<close>

type_synonym js_string = "16 word list"

text \<open>
  \<^verbatim>\<open>static async getDownloadUrl(url: string): Promise<string> { return url; }\<close>
  The body has no \<^verbatim>\<open>await\<close>: the promise is fulfilled with \<open>url\<close> when the call returns.
\<close>

definition getDownloadUrl :: "js_string \<Rightarrow> ('r, js_string) promise" where
  "getDownloadUrl url = Settles 0 (Fulfilled url)"

subsection \<open>The tasks and the world\<close>

text \<open>
  The five calls of the array literal, named after the functions called:
  \<^verbatim>\<open>watchProcesses()\<close>, \<^verbatim>\<open>DownloadManager.watchDownloads()\<close>,
  \<^verbatim>\<open>AchievementWatcherManager.watchAchievements()\<close>, \<^verbatim>\<open>DownloadManager.getSeedStatus()\<close>,
  \<^verbatim>\<open>UpdateManager.checkForUpdatePeriodically()\<close>.
\<close>

datatype task =
    WatchProcesses
  | WatchDownloads
  | WatchAchievements
  | GetSeedStatus
  | CheckForUpdatePeriodically

text \<open>The array literal handed to \<^verbatim>\<open>Promise.allSettled\<close>, in its written order.\<close>

definition taskSet :: "task list" where
  "taskSet =
     [WatchProcesses, WatchDownloads, WatchAchievements, GetSeedStatus,
      CheckForUpdatePeriodically]"

text \<open>The literal argument of \<^verbatim>\<open>sleep(1500)\<close>.\<close>

definition pacingDelay :: nat where
  "pacingDelay = 1500"

text \<open>
  The monitors are opaque: \<open>w k t\<close> is the promise that the call of task \<open>t\<close> returns
  when it is made in the \<open>k\<close>-th pass of the loop (counted from 0). Each monitor is an
  \<^verbatim>\<open>async\<close> function taking no argument, so a call always returns a promise and a failure
  inside it is a rejection. Every theorem below holds for every world.
\<close>

type_synonym ('r, 'v) world = "nat \<Rightarrow> task \<Rightarrow> ('r, 'v) promise"

subsection \<open>What is observed of a run\<close>

text \<open>
  The loop has no variables. To state when things happen, the model carries a clock, the
  number of cycles launched so far, and a log of events:
  \<^item> \<open>Invoke k t tm\<close>: task \<open>t\<close> was called in cycle \<open>k\<close> at time \<open>tm\<close>;
  \<^item> \<open>Settled k t r tm\<close>: the promise of task \<open>t\<close> of cycle \<open>k\<close> settled as \<open>r\<close> at \<open>tm\<close>;
  \<^item> \<open>Timer k ms tm\<close>: after cycle \<open>k\<close>, \<^verbatim>\<open>sleep(ms)\<close> was called at time \<open>tm\<close>.

  The \<open>Settled\<close> events of one cycle are logged together, in the order of the result
  array of \<^verbatim>\<open>Promise.allSettled\<close>; their time stamps say when each happened.
\<close>

datatype ('r, 'v) event =
    Invoke nat task nat
  | Settled nat task "('r, 'v) settled" nat
  | Timer nat nat nat

record ('r, 'v) loop_state =
  now :: nat
  cycles :: nat
  log :: "('r, 'v) event list"

definition startState :: "nat \<Rightarrow> ('r, 'v) loop_state" where
  "startState t0 = \<lparr>now = t0, cycles = 0, log = []\<rparr>"

subsection \<open>\<^verbatim>\<open>sleep\<close>, \<^verbatim>\<open>Promise.allSettled\<close> and \<^verbatim>\<open>await\<close>\<close>

text \<open>
  Modelled from the spec: \<^verbatim>\<open>sleep\<close> is imported from \<^verbatim>\<open>@main/helpers\<close>, which is not
  among the source files. The spec's pacing primitive is
  \<^verbatim>\<open>delay(durationMs) -> resolves-after-duration\<close>: a promise fulfilled (with no value)
  once the duration has passed.
\<close>

definition sleep :: "nat \<Rightarrow> ('r, unit) promise" where
  "sleep ms = Settles ms (Fulfilled ())"

text \<open>
  \<^verbatim>\<open>Promise.allSettled\<close> (ECMAScript): the returned promise is never rejected; it is
  fulfilled with the array of the results, in the order of the input, when the last input
  promise has settled, and stays pending while one of them is pending. All input promises
  here are created at the same instant, so the delay of the result is the largest delay.
\<close>

fun collect :: "('r, 'a) promise list \<Rightarrow> (nat \<times> ('r, 'a) settled list) option" where
  "collect [] = Some (0, [])"
| "collect (Pending # ps) = None"
| "collect (Settles d r # ps) =
     (case collect ps of
        None \<Rightarrow> None
      | Some (m, rs) \<Rightarrow> Some (max d m, r # rs))"

definition allSettled :: "('r, 'a) promise list \<Rightarrow> ('q, ('r, 'a) settled list) promise" where
  "allSettled ps =
     (case collect ps of
        None \<Rightarrow> Pending
      | Some (m, rs) \<Rightarrow> Settles m (Fulfilled rs))"

text \<open>
  \<^verbatim>\<open>await p\<close> inside an \<^verbatim>\<open>async\<close> function: the function is suspended until \<open>p\<close>
  settles; it resumes with the value, or the rejection reason is thrown at the
  \<^verbatim>\<open>await\<close>; if \<open>p\<close> never settles the function never resumes.
\<close>

datatype ('r, 'a, 's) resumption = Resumed 'a 's | Raised 'r 's | Blocked 's

definition await ::
  "('r, 'a) promise \<Rightarrow> ('q, 'v) loop_state \<Rightarrow> ('r, 'a, ('q, 'v) loop_state) resumption" where
  "await p s =
     (case p of
        Pending \<Rightarrow> Blocked s
      | Settles d (Fulfilled v) \<Rightarrow> Resumed v (s\<lparr>now := now s + d\<rparr>)
      | Settles d (Rejected r) \<Rightarrow> Raised r (s\<lparr>now := now s + d\<rparr>))"

subsection \<open>One pass of the loop\<close>

text \<open>
  The array literal is evaluated from left to right: each element is a call, made at the
  current instant, whose promise becomes the element.
\<close>

fun launch ::
  "('r, 'v) world \<Rightarrow> nat \<Rightarrow> task list \<Rightarrow> ('r, 'v) loop_state \<Rightarrow>
   ('r, 'v) promise list \<times> ('r, 'v) loop_state" where
  "launch w k [] s = ([], s)"
| "launch w k (t # ts) s =
     (let p = w k t;
          s' = s\<lparr>log := log s @ [Invoke k t (now s)]\<rparr>;
          (ps, s'') = launch w k ts s'
      in (p # ps, s''))"

text \<open>The settlements of the promises launched at time \<open>t0\<close>, for the log.\<close>

fun settlement :: "nat \<Rightarrow> nat \<Rightarrow> task \<times> ('r, 'v) promise \<Rightarrow> ('r, 'v) event list" where
  "settlement k t0 (t, Settles d r) = [Settled k t r (t0 + d)]"
| "settlement k t0 (t, Pending) = []"

definition settlements ::
  "nat \<Rightarrow> nat \<Rightarrow> task list \<Rightarrow> ('r, 'v) promise list \<Rightarrow> ('r, 'v) event list" where
  "settlements k t0 ts ps = concat (map (settlement k t0) (zip ts ps))"

text \<open>
  How a run stands: \<open>Running s\<close>, the loop is at the head of the \<^verbatim>\<open>while\<close> in state
  \<open>s\<close>; \<open>Hung s\<close>, it is suspended for ever in an \<^verbatim>\<open>await\<close>; \<open>Crashed r s\<close>, an
  exception \<open>r\<close> left the loop, so the promise of \<^verbatim>\<open>startMainLoop\<close> is rejected.
\<close>

datatype ('r, 's) run = Running 's | Hung 's | Crashed 'r 's

text \<open>
  The body of the \<^verbatim>\<open>while\<close>:
  \<^verbatim>\<open>await Promise.allSettled([...]); await sleep(1500);\<close>
  The value of the first \<^verbatim>\<open>await\<close> (the array of results) is not bound to anything.
\<close>

definition mainLoopBody ::
  "('r, 'v) world \<Rightarrow> ('r, 'v) loop_state \<Rightarrow> ('r, ('r, 'v) loop_state) run" where
  "mainLoopBody w s =
     (let k = cycles s;
          (ps, s1) = launch w k taskSet s;
          s2 = s1\<lparr>cycles := Suc k, log := log s1 @ settlements k (now s1) taskSet ps\<rparr>
      in case await (allSettled ps) s2 of
           Blocked s3 \<Rightarrow> Hung s3
         | Raised r s3 \<Rightarrow> Crashed r s3
         | Resumed results s3 \<Rightarrow>
             (case await (sleep pacingDelay)
                     (s3\<lparr>log := log s3 @ [Timer k pacingDelay (now s3)]\<rparr>) of
                Blocked s4 \<Rightarrow> Hung s4
              | Raised r s4 \<Rightarrow> Crashed r s4
              | Resumed u s4 \<Rightarrow> Running s4))"

subsection \<open>The loop\<close>

text \<open>
  \<^verbatim>\<open>startMainLoop\<close>: the value is how the promise returned by the call settles; \<open>None\<close>
  means that it never does. The loop has no \<^verbatim>\<open>break\<close> and no \<^verbatim>\<open>return\<close>.
\<close>

partial_function (option) startMainLoop ::
  "('r, 'v) world \<Rightarrow> ('r, 'v) loop_state \<Rightarrow> ('r, unit) settled option" where
  "startMainLoop w s =
     (case mainLoopBody w s of
        Running s' \<Rightarrow> startMainLoop w s'
      | Hung s' \<Rightarrow> None
      | Crashed r s' \<Rightarrow> Some (Rejected r))"

text \<open>The first \<open>n\<close> passes of the same loop, to observe the state it has reached.\<close>

fun iterations ::
  "('r, 'v) world \<Rightarrow> nat \<Rightarrow> ('r, 'v) loop_state \<Rightarrow> ('r, ('r, 'v) loop_state) run" where
  "iterations w 0 s = Running s"
| "iterations w (Suc n) s =
     (case mainLoopBody w s of
        Running s' \<Rightarrow> iterations w n s'
      | Hung s' \<Rightarrow> Hung s'
      | Crashed r s' \<Rightarrow> Crashed r s')"

fun stateOf :: "('r, 's) run \<Rightarrow> 's" where
  "stateOf (Running s) = s"
| "stateOf (Hung s) = s"
| "stateOf (Crashed r s) = s"

subsection \<open>Quantities used in the statements\<close>

text \<open>
  The time that \<^verbatim>\<open>Promise.allSettled\<close> takes in cycle \<open>k\<close>: the largest delay of the
  five promises (0 when one of them stays pending, where the time is not used).
\<close>

definition span :: "('r, 'v) world \<Rightarrow> nat \<Rightarrow> nat" where
  "span w k = (case collect (map (w k) taskSet) of None \<Rightarrow> 0 | Some (m, rs) \<Rightarrow> m)"

text \<open>The instant at which cycle \<open>k\<close> is launched when the loop starts at \<open>t0\<close>.\<close>

fun launchTime :: "('r, 'v) world \<Rightarrow> nat \<Rightarrow> nat \<Rightarrow> nat" where
  "launchTime w t0 0 = t0"
| "launchTime w t0 (Suc k) = launchTime w t0 k + span w k + pacingDelay"

text \<open>The tasks called in cycle \<open>k\<close>, in the order of their calls in the log.\<close>

fun launchedIn :: "nat \<Rightarrow> ('r, 'v) event list \<Rightarrow> task list" where
  "launchedIn k [] = []"
| "launchedIn k (Invoke c t tm # es) = (if c = k then t # launchedIn k es else launchedIn k es)"
| "launchedIn k (Settled c t r tm # es) = launchedIn k es"
| "launchedIn k (Timer c ms tm # es) = launchedIn k es"

text \<open>The state in which the loop is found after at most \<open>n\<close> passes, started at \<open>t0\<close>.\<close>

definition observe :: "('r, 'v) world \<Rightarrow> nat \<Rightarrow> nat \<Rightarrow> ('r, 'v) loop_state" where
  "observe w t0 n = stateOf (iterations w n (startState t0))"

text \<open>When a promise settles, without how: the delay, or \<open>None\<close> for never.\<close>

fun timing :: "('r, 'a) promise \<Rightarrow> nat option" where
  "timing (Settles d r) = Some d"
| "timing Pending = None"

text \<open>
  What the loop itself does: the calls of the tasks and the calls of \<^verbatim>\<open>sleep\<close>, with
  their instants. The outcomes of the tasks are not part of it.
\<close>

datatype action = Launch nat task nat | Sleep nat nat nat

fun actions :: "('r, 'v) event list \<Rightarrow> action list" where
  "actions [] = []"
| "actions (Invoke k t tm # es) = Launch k t tm # actions es"
| "actions (Settled k t r tm # es) = actions es"
| "actions (Timer k ms tm # es) = Sleep k ms tm # actions es"

definition view :: "('r, 'v) loop_state \<Rightarrow> nat \<times> nat \<times> action list" where
  "view s = (now s, cycles s, actions (log s))"

fun behaviour :: "('r, ('r, 'v) loop_state) run \<Rightarrow> (unit, nat \<times> nat \<times> action list) run" where
  "behaviour (Running s) = Running (view s)"
| "behaviour (Hung s) = Hung (view s)"
| "behaviour (Crashed r s) = Crashed () (view s)"

subsection \<open>Worlds for concrete runs\<close>

text \<open>
  In \<open>flaky\<close> the download watcher is rejected in every cycle; \<open>steady\<close> has the same
  delays and no failure; in \<open>stuck\<close> the seed status of cycle 1 never settles; in
  \<open>torn\<close> the download watcher is rejected and the seed status never settles, in every
  cycle.
\<close>

definition flaky :: "(string, unit) world" where
  "flaky k t =
     (if t = WatchDownloads then Settles 7 (Rejected ''offline'') else Settles 3 (Fulfilled ()))"

definition steady :: "(string, unit) world" where
  "steady k t = (if t = WatchDownloads then Settles 7 (Fulfilled ()) else Settles 3 (Fulfilled ()))"

definition stuck :: "(string, unit) world" where
  "stuck k t = (if k = 1 \<and> t = GetSeedStatus then Pending else Settles 3 (Fulfilled ()))"

definition torn :: "(string, unit) world" where
  "torn k t =
     (if t = WatchDownloads then Settles 7 (Rejected ''offline'')
      else if t = GetSeedStatus then Pending
      else Settles 3 (Fulfilled ()))"

section \<open>Lemmas\<close>

subsection \<open>The primitives\<close>

lemma launch_eq:
  "launch w k ts s = (map (w k) ts, s\<lparr>log := log s @ map (\<lambda>t. Invoke k t (now s)) ts\<rparr>)"
  by (induction ts arbitrary: s) simp_all

lemma collect_None_iff: "collect ps = None \<longleftrightarrow> Pending \<in> set ps"
  by (induction ps rule: collect.induct) (auto split: option.splits)

lemma collect_Some_bound:
  "collect ps = Some (m, rs) \<Longrightarrow> Settles d r \<in> set ps \<Longrightarrow> d \<le> m"
  by (induction ps arbitrary: m rs rule: collect.induct) (auto split: option.splits)

lemma collect_Some_attained:
  "collect ps = Some (m, rs) \<Longrightarrow> ps \<noteq> [] \<Longrightarrow> \<exists>r. Settles m r \<in> set ps"
proof (induction ps arbitrary: m rs rule: collect.induct)
  case 1
  then show ?case by simp
next
  case (2 ps)
  then show ?case by simp
next
  case (3 d r ps)
  then obtain m' rs' where c: "collect ps = Some (m', rs')" and m: "m = max d m'"
    by (auto split: option.splits)
  show ?case
  proof (cases "ps = []")
    case True
    with c m show ?thesis by simp
  next
    case False
    from "3.IH" [OF c False] obtain r' where "Settles m' r' \<in> set ps" ..
    with m show ?thesis by (cases "d \<le> m'") (auto simp: max_def)
  qed
qed

lemma set_settlements:
  "set (settlements k t0 ts (map (w k) ts)) =
     {Settled k t r (t0 + d) | t d r. t \<in> set ts \<and> w k t = Settles d r}"
proof (induction ts)
  case Nil
  then show ?case by (simp add: settlements_def)
next
  case (Cons t ts)
  then show ?case
    by (cases "w k t") (auto simp: settlements_def)
qed

lemma taskSet_all: "t \<in> set taskSet"
  by (cases t) (simp_all add: taskSet_def)

lemma taskSet_nonempty: "taskSet \<noteq> []"
  by (simp add: taskSet_def)

subsection \<open>One pass of the loop, in closed form\<close>

lemma body_Hung:
  assumes "Pending \<in> w (cycles s) ` set taskSet"
  shows "mainLoopBody w s =
     Hung (s\<lparr>cycles := Suc (cycles s),
             log := log s @ map (\<lambda>t. Invoke (cycles s) t (now s)) taskSet
                      @ settlements (cycles s) (now s) taskSet (map (w (cycles s)) taskSet)\<rparr>)"
proof -
  from assms have "collect (map (w (cycles s)) taskSet) = None"
    by (simp add: collect_None_iff)
  then show ?thesis
    by (simp add: mainLoopBody_def Let_def launch_eq allSettled_def await_def)
qed

lemma body_Running:
  assumes "Pending \<notin> w (cycles s) ` set taskSet"
  shows "mainLoopBody w s =
     Running (s\<lparr>now := now s + span w (cycles s) + pacingDelay,
                cycles := Suc (cycles s),
                log := log s @ map (\<lambda>t. Invoke (cycles s) t (now s)) taskSet
                      @ settlements (cycles s) (now s) taskSet (map (w (cycles s)) taskSet)
                      @ [Timer (cycles s) pacingDelay (now s + span w (cycles s))]\<rparr>)"
proof -
  from assms have "collect (map (w (cycles s)) taskSet) \<noteq> None"
    by (simp add: collect_None_iff)
  then obtain m rs where c: "collect (map (w (cycles s)) taskSet) = Some (m, rs)"
    by auto
  then have "span w (cycles s) = m"
    by (simp add: span_def)
  with c show ?thesis
    by (simp add: mainLoopBody_def Let_def launch_eq allSettled_def await_def sleep_def)
qed

lemma body_not_Crashed: "mainLoopBody w s \<noteq> Crashed r s'"
  by (cases "Pending \<in> w (cycles s) ` set taskSet") (simp_all add: body_Hung body_Running)

subsection \<open>The loop and its first passes\<close>

lemma startMainLoop_never: "startMainLoop w s = None"
proof (rule ccontr)
  assume "startMainLoop w s \<noteq> None"
  then obtain y where y: "startMainLoop w s = Some y" by auto
  show False
  proof (rule startMainLoop.raw_induct [where P = "\<lambda>_ _ _. False", OF _ y])
    fix f :: "('a, 'b) world \<Rightarrow> ('a, 'b) loop_state \<Rightarrow> ('a, unit) settled option"
    fix w s y
    assume IH: "\<And>w s y. f w s = Some y \<Longrightarrow> False"
      and step: "(case mainLoopBody w s of
                    Running s' \<Rightarrow> f w s'
                  | Hung s' \<Rightarrow> None
                  | Crashed r s' \<Rightarrow> Some (Rejected r)) = Some y"
    show False
    proof (cases "mainLoopBody w s")
      case (Running s1)
      with step have "f w s1 = Some y" by simp
      then show False by (rule IH)
    next
      case (Hung s1)
      with step show False by simp
    next
      case (Crashed r s1)
      then show False by (simp add: body_not_Crashed)
    qed
  qed
qed

lemma iterations_snoc:
  "iterations w (Suc n) s =
     (case iterations w n s of
        Running s' \<Rightarrow> mainLoopBody w s'
      | Hung s' \<Rightarrow> Hung s'
      | Crashed r s' \<Rightarrow> Crashed r s')"
proof (induction n arbitrary: s)
  case 0
  then show ?case by (cases "mainLoopBody w s") simp_all
next
  case (Suc n)
  show ?case
  proof (cases "mainLoopBody w s")
    case (Running s1)
    have a: "iterations w (Suc (Suc n)) s = iterations w (Suc n) s1"
      by (subst iterations.simps) (simp add: Running)
    have b: "iterations w (Suc n) s = iterations w n s1"
      by (simp add: Running)
    have "iterations w (Suc (Suc n)) s =
        (case iterations w n s1 of
           Running s' \<Rightarrow> mainLoopBody w s'
         | Hung s' \<Rightarrow> Hung s'
         | Crashed r s' \<Rightarrow> Crashed r s')"
      using a Suc.IH [of s1] by (simp only:)
    then show ?thesis by (simp only: b)
  next
    case (Hung s1)
    then show ?thesis by simp
  next
    case (Crashed r s1)
    then show ?thesis by simp
  qed
qed

lemma iterations_not_Crashed: "iterations w n s \<noteq> Crashed r s'"
proof (induction n arbitrary: s)
  case 0
  then show ?case by simp
next
  case (Suc n)
  then show ?case
    by (cases "mainLoopBody w s") (simp_all add: body_not_Crashed)
qed

lemma span_bound:
  assumes "Pending \<notin> w k ` set taskSet" and "w k t = Settles d r"
  shows "d \<le> span w k"
proof -
  from assms(1) have "collect (map (w k) taskSet) \<noteq> None"
    by (simp add: collect_None_iff)
  then obtain m rs where c: "collect (map (w k) taskSet) = Some (m, rs)"
    by auto
  have "Settles d r \<in> set (map (w k) taskSet)"
    using assms(2) taskSet_all [of t] by (metis image_eqI set_map)
  with c have "d \<le> m" by (rule collect_Some_bound)
  with c show ?thesis by (simp add: span_def)
qed

lemma span_attained:
  assumes "Pending \<notin> w k ` set taskSet"
  shows "\<exists>t r. w k t = Settles (span w k) r"
proof -
  from assms have "collect (map (w k) taskSet) \<noteq> None"
    by (simp add: collect_None_iff)
  then obtain m rs where c: "collect (map (w k) taskSet) = Some (m, rs)"
    by auto
  have "map (w k) taskSet \<noteq> []"
    by (simp add: taskSet_nonempty)
  with c obtain r where "Settles m r \<in> set (map (w k) taskSet)"
    using collect_Some_attained by blast
  then obtain t where "w k t = Settles m r" by auto
  with c show ?thesis by (auto simp: span_def)
qed

lemma launchedIn_append: "launchedIn k (xs @ ys) = launchedIn k xs @ launchedIn k ys"
  by (induction xs rule: launchedIn.induct) simp_all

lemma launchedIn_invokes:
  "launchedIn k (map (\<lambda>t. Invoke c t tm) ts) = (if c = k then ts else [])"
  by (induction ts) auto

lemma launchedIn_settlements: "launchedIn k (settlements c t0 ts (map (w c) ts)) = []"
proof (induction ts)
  case Nil
  then show ?case by (simp add: settlements_def)
next
  case (Cons t ts)
  then show ?case by (cases "w c t") (simp_all add: settlements_def)
qed

subsection \<open>The log of a run\<close>

lemma Running_SucE:
  assumes "iterations w (Suc n) s0 = Running s"
  obtains s' where "iterations w n s0 = Running s'"
    and "Pending \<notin> w (cycles s') ` set taskSet"
    and "s = s'\<lparr>now := now s' + span w (cycles s') + pacingDelay,
                cycles := Suc (cycles s'),
                log := log s' @ map (\<lambda>t. Invoke (cycles s') t (now s')) taskSet
                      @ settlements (cycles s') (now s') taskSet (map (w (cycles s')) taskSet)
                      @ [Timer (cycles s') pacingDelay (now s' + span w (cycles s'))]\<rparr>"
proof -
  from assms obtain s' where r: "iterations w n s0 = Running s'"
    and b: "mainLoopBody w s' = Running s"
    by (auto simp: iterations_snoc simp del: iterations.simps(2) split: run.splits)
  have np: "Pending \<notin> w (cycles s') ` set taskSet"
  proof
    assume "Pending \<in> w (cycles s') ` set taskSet"
    with body_Hung [of w s'] b show False by simp
  qed
  from body_Running [of w s'] b r np that show thesis by simp
qed

lemma Hung_E:
  assumes "iterations w n s0 = Hung s"
  obtains c s' where "c < n" and "iterations w c s0 = Running s'"
    and "Pending \<in> w (cycles s') ` set taskSet"
    and "s = s'\<lparr>cycles := Suc (cycles s'),
                log := log s' @ map (\<lambda>t. Invoke (cycles s') t (now s')) taskSet
                      @ settlements (cycles s') (now s') taskSet (map (w (cycles s')) taskSet)\<rparr>"
proof -
  have "\<exists>c s'. c < n \<and> iterations w c s0 = Running s' \<and> mainLoopBody w s' = Hung s"
    using assms
  proof (induction n)
    case 0
    then show ?case by simp
  next
    case (Suc n)
    show ?case
    proof (cases "iterations w n s0")
      case (Running s')
      with Suc.prems have "mainLoopBody w s' = Hung s"
        by (simp add: iterations_snoc del: iterations.simps(2))
      with Running show ?thesis by blast
    next
      case (Hung s')
      with Suc.prems have "iterations w n s0 = Hung s"
        by (simp add: iterations_snoc del: iterations.simps(2))
      from Suc.IH [OF this] show ?thesis
        using less_Suc_eq by blast
    next
      case (Crashed r s')
      with Suc.prems show ?thesis by (simp add: iterations_snoc del: iterations.simps(2))
    qed
  qed
  then obtain c s' where c: "c < n" and r: "iterations w c s0 = Running s'"
    and b: "mainLoopBody w s' = Hung s"
    by blast
  have p: "Pending \<in> w (cycles s') ` set taskSet"
  proof (rule ccontr)
    assume "Pending \<notin> w (cycles s') ` set taskSet"
    with body_Running [of w s'] b show False by simp
  qed
  from body_Hung [of w s'] b c r p that show thesis by simp
qed

lemma Running_clock:
  "iterations w n (startState t0) = Running s \<Longrightarrow> cycles s = n \<and> now s = launchTime w t0 n"
proof (induction n arbitrary: s)
  case 0
  then show ?case by (auto simp: startState_def)
next
  case (Suc n)
  from Suc.prems obtain s' where r: "iterations w n (startState t0) = Running s'"
    and s: "s = s'\<lparr>now := now s' + span w (cycles s') + pacingDelay,
                cycles := Suc (cycles s'),
                log := log s' @ map (\<lambda>t. Invoke (cycles s') t (now s')) taskSet
                      @ settlements (cycles s') (now s') taskSet (map (w (cycles s')) taskSet)
                      @ [Timer (cycles s') pacingDelay (now s' + span w (cycles s'))]\<rparr>"
    by (rule Running_SucE)
  from Suc.IH [OF r] have "cycles s' = n" and "now s' = launchTime w t0 n" by simp_all
  with s show ?case by simp
qed

lemma Running_settled:
  "iterations w n (startState t0) = Running s \<Longrightarrow> k < n \<Longrightarrow> Pending \<notin> w k ` set taskSet"
proof (induction n arbitrary: s)
  case 0
  then show ?case by simp
next
  case (Suc n)
  from Suc.prems(1) obtain s' where r: "iterations w n (startState t0) = Running s'"
    and np: "Pending \<notin> w (cycles s') ` set taskSet"
    by (rule Running_SucE)
  from Running_clock [OF r] np have "Pending \<notin> w n ` set taskSet" by simp
  with Suc.IH [OF r] Suc.prems(2) show ?case
    by (cases "k = n") simp_all
qed

lemma Running_log:
  assumes "iterations w n (startState t0) = Running s"
  shows "Invoke k t tm \<in> set (log s) \<longleftrightarrow> k < n \<and> tm = launchTime w t0 k"
    and "Settled k t r tm \<in> set (log s) \<longleftrightarrow>
           k < n \<and> (\<exists>d. w k t = Settles d r \<and> tm = launchTime w t0 k + d)"
    and "Timer k ms tm \<in> set (log s) \<longleftrightarrow>
           k < n \<and> ms = pacingDelay \<and> tm = launchTime w t0 k + span w k"
    and "launchedIn k (log s) = (if k < n then taskSet else [])"
  using assms
proof (induction n arbitrary: s)
  case 0
  {
    case 1 then show ?case by (auto simp: startState_def)
  next
    case 2 then show ?case by (auto simp: startState_def)
  next
    case 3 then show ?case by (auto simp: startState_def)
  next
    case 4 then show ?case by (auto simp: startState_def)
  }
next
  case (Suc n)
  {
    case 1
    from 1 obtain s' where r: "iterations w n (startState t0) = Running s'"
      and s: "s = s'\<lparr>now := now s' + span w (cycles s') + pacingDelay,
                cycles := Suc (cycles s'),
                log := log s' @ map (\<lambda>t. Invoke (cycles s') t (now s')) taskSet
                      @ settlements (cycles s') (now s') taskSet (map (w (cycles s')) taskSet)
                      @ [Timer (cycles s') pacingDelay (now s' + span w (cycles s'))]\<rparr>"
      by (rule Running_SucE)
    from Running_clock [OF r] have c: "cycles s' = n" "now s' = launchTime w t0 n" by simp_all
    show ?case
      using Suc.IH(1) [OF r] taskSet_all [of t]
      by (auto simp: s c set_settlements less_Suc_eq)
  next
    case 2
    from 2 obtain s' where r: "iterations w n (startState t0) = Running s'"
      and s: "s = s'\<lparr>now := now s' + span w (cycles s') + pacingDelay,
                cycles := Suc (cycles s'),
                log := log s' @ map (\<lambda>t. Invoke (cycles s') t (now s')) taskSet
                      @ settlements (cycles s') (now s') taskSet (map (w (cycles s')) taskSet)
                      @ [Timer (cycles s') pacingDelay (now s' + span w (cycles s'))]\<rparr>"
      by (rule Running_SucE)
    from Running_clock [OF r] have c: "cycles s' = n" "now s' = launchTime w t0 n" by simp_all
    show ?case
      using Suc.IH(2) [OF r] taskSet_all [of t]
      by (auto simp: s c set_settlements less_Suc_eq)
  next
    case 3
    from 3 obtain s' where r: "iterations w n (startState t0) = Running s'"
      and s: "s = s'\<lparr>now := now s' + span w (cycles s') + pacingDelay,
                cycles := Suc (cycles s'),
                log := log s' @ map (\<lambda>t. Invoke (cycles s') t (now s')) taskSet
                      @ settlements (cycles s') (now s') taskSet (map (w (cycles s')) taskSet)
                      @ [Timer (cycles s') pacingDelay (now s' + span w (cycles s'))]\<rparr>"
      by (rule Running_SucE)
    from Running_clock [OF r] have c: "cycles s' = n" "now s' = launchTime w t0 n" by simp_all
    show ?case
      using Suc.IH(3) [OF r]
      by (auto simp: s c set_settlements less_Suc_eq)
  next
    case 4
    from 4 obtain s' where r: "iterations w n (startState t0) = Running s'"
      and s: "s = s'\<lparr>now := now s' + span w (cycles s') + pacingDelay,
                cycles := Suc (cycles s'),
                log := log s' @ map (\<lambda>t. Invoke (cycles s') t (now s')) taskSet
                      @ settlements (cycles s') (now s') taskSet (map (w (cycles s')) taskSet)
                      @ [Timer (cycles s') pacingDelay (now s' + span w (cycles s'))]\<rparr>"
      by (rule Running_SucE)
    from Running_clock [OF r] have c: "cycles s' = n" "now s' = launchTime w t0 n" by simp_all
    show ?case
      using Suc.IH(4) [OF r]
      by (auto simp: s c launchedIn_append launchedIn_invokes launchedIn_settlements)
  }
qed

lemma Hung_log:
  assumes "iterations w n (startState t0) = Hung s"
  obtains c where "c < n" and "cycles s = Suc c" and "Pending \<in> w c ` set taskSet"
    and "\<And>k. k < c \<Longrightarrow> Pending \<notin> w k ` set taskSet"
    and "\<And>k t tm. Invoke k t tm \<in> set (log s) \<longleftrightarrow> k < Suc c \<and> tm = launchTime w t0 k"
    and "\<And>k t r tm. Settled k t r tm \<in> set (log s) \<longleftrightarrow>
           k < Suc c \<and> (\<exists>d. w k t = Settles d r \<and> tm = launchTime w t0 k + d)"
    and "\<And>k ms tm. Timer k ms tm \<in> set (log s) \<longleftrightarrow>
           k < c \<and> ms = pacingDelay \<and> tm = launchTime w t0 k + span w k"
    and "\<And>k. launchedIn k (log s) = (if k < Suc c then taskSet else [])"
proof -
  from assms obtain c s' where c: "c < n" and r: "iterations w c (startState t0) = Running s'"
    and p: "Pending \<in> w (cycles s') ` set taskSet"
    and s: "s = s'\<lparr>cycles := Suc (cycles s'),
                log := log s' @ map (\<lambda>t. Invoke (cycles s') t (now s')) taskSet
                      @ settlements (cycles s') (now s') taskSet (map (w (cycles s')) taskSet)\<rparr>"
    by (rule Hung_E)
  from Running_clock [OF r] have k: "cycles s' = c" "now s' = launchTime w t0 c" by simp_all
  have 1: "cycles s = Suc c" by (simp add: s k)
  have 2: "Pending \<in> w c ` set taskSet" using p by (simp add: k)
  have 3: "Pending \<notin> w k ` set taskSet" if "k < c" for k
    using r that by (rule Running_settled)
  have 4: "Invoke k t tm \<in> set (log s) \<longleftrightarrow> k < Suc c \<and> tm = launchTime w t0 k" for k t tm
    using Running_log(1) [OF r, of k t tm] taskSet_all [of t]
    by (auto simp: s k set_settlements less_Suc_eq)
  have 5: "Settled k t r tm \<in> set (log s) \<longleftrightarrow>
           k < Suc c \<and> (\<exists>d. w k t = Settles d r \<and> tm = launchTime w t0 k + d)" for k t r tm
    using Running_log(2) [OF r, of k t r tm] taskSet_all [of t]
    by (auto simp: s k set_settlements less_Suc_eq)
  have 6: "Timer k ms tm \<in> set (log s) \<longleftrightarrow>
           k < c \<and> ms = pacingDelay \<and> tm = launchTime w t0 k + span w k" for k ms tm
    using Running_log(3) [OF r, of k ms tm]
    by (auto simp: s k set_settlements)
  have 7: "launchedIn k (log s) = (if k < Suc c then taskSet else [])" for k
    using Running_log(4) [OF r, of k]
    by (auto simp: s k launchedIn_append launchedIn_invokes launchedIn_settlements)
  show thesis
    by (rule that [of c]) (fact c 1 2 3 4 5 6 7)+
qed

lemma run_cases:
  obtains (Running) s where "iterations w n s0 = Running s"
  | (Hung) s where "iterations w n s0 = Hung s"
  by (cases "iterations w n s0") (simp_all add: iterations_not_Crashed)

lemma reach_Invoke:
  "Invoke k t tm \<in> set (log (stateOf (iterations w n (startState t0)))) \<longleftrightarrow>
     k < cycles (stateOf (iterations w n (startState t0))) \<and> tm = launchTime w t0 k"
proof (cases rule: run_cases [of w n "startState t0"])
  case (Running s)
  with Running_clock [OF Running] Running_log(1) [OF Running] show ?thesis by simp
next
  case (Hung s)
  from Hung show ?thesis by (rule Hung_log) (simp add: Hung)
qed

lemma reach_Settled:
  "Settled k t r tm \<in> set (log (stateOf (iterations w n (startState t0)))) \<longleftrightarrow>
     k < cycles (stateOf (iterations w n (startState t0))) \<and>
     (\<exists>d. w k t = Settles d r \<and> tm = launchTime w t0 k + d)"
proof (cases rule: run_cases [of w n "startState t0"])
  case (Running s)
  with Running_clock [OF Running] Running_log(2) [OF Running] show ?thesis by simp
next
  case (Hung s)
  from Hung show ?thesis by (rule Hung_log) (simp add: Hung)
qed

lemma reach_Timer:
  assumes "Timer k ms tm \<in> set (log (stateOf (iterations w n (startState t0))))"
  shows "Suc k < cycles (stateOf (iterations w n (startState t0))) \<or>
           iterations w n (startState t0) = Running (stateOf (iterations w n (startState t0)))
           \<and> Suc k = cycles (stateOf (iterations w n (startState t0)))"
    and "ms = pacingDelay" and "tm = launchTime w t0 k + span w k"
    and "Pending \<notin> w k ` set taskSet"
proof -
  have "(Suc k < cycles (stateOf (iterations w n (startState t0))) \<or>
           iterations w n (startState t0) = Running (stateOf (iterations w n (startState t0)))
           \<and> Suc k = cycles (stateOf (iterations w n (startState t0))))
       \<and> ms = pacingDelay \<and> tm = launchTime w t0 k + span w k
       \<and> Pending \<notin> w k ` set taskSet"
  proof (cases rule: run_cases [of w n "startState t0"])
    case (Running s)
    with assms Running_clock [OF Running] Running_log(3) [OF Running, of k ms tm]
      Running_settled [OF Running, of k]
    show ?thesis by auto
  next
    case (Hung s)
    from Hung show ?thesis
    proof (rule Hung_log)
      fix c
      assume "cycles s = Suc c"
        and "\<And>k. k < c \<Longrightarrow> Pending \<notin> w k ` set taskSet"
        and "\<And>k ms tm. Timer k ms tm \<in> set (log s) \<longleftrightarrow>
           k < c \<and> ms = pacingDelay \<and> tm = launchTime w t0 k + span w k"
      with assms Hung show ?thesis by auto
    qed
  qed
  then show "Suc k < cycles (stateOf (iterations w n (startState t0))) \<or>
           iterations w n (startState t0) = Running (stateOf (iterations w n (startState t0)))
           \<and> Suc k = cycles (stateOf (iterations w n (startState t0)))"
    and "ms = pacingDelay" and "tm = launchTime w t0 k + span w k"
    and "Pending \<notin> w k ` set taskSet"
    by simp_all
qed

lemma reach_completed:
  assumes "Suc k < cycles (stateOf (iterations w n (startState t0)))"
  shows "Timer k pacingDelay (launchTime w t0 k + span w k)
           \<in> set (log (stateOf (iterations w n (startState t0))))"
    and "Pending \<notin> w k ` set taskSet"
proof -
  have "Timer k pacingDelay (launchTime w t0 k + span w k)
           \<in> set (log (stateOf (iterations w n (startState t0))))
      \<and> Pending \<notin> w k ` set taskSet"
  proof (cases rule: run_cases [of w n "startState t0"])
    case (Running s)
    with assms Running_clock [OF Running]
      Running_log(3) [OF Running, of k pacingDelay "launchTime w t0 k + span w k"]
      Running_settled [OF Running, of k]
    show ?thesis by auto
  next
    case (Hung s)
    from Hung show ?thesis
    proof (rule Hung_log)
      fix c
      assume "cycles s = Suc c"
        and "\<And>k. k < c \<Longrightarrow> Pending \<notin> w k ` set taskSet"
        and "\<And>k ms tm. Timer k ms tm \<in> set (log s) \<longleftrightarrow>
           k < c \<and> ms = pacingDelay \<and> tm = launchTime w t0 k + span w k"
      with assms Hung show ?thesis by auto
    qed
  qed
  then show "Timer k pacingDelay (launchTime w t0 k + span w k)
           \<in> set (log (stateOf (iterations w n (startState t0))))"
    and "Pending \<notin> w k ` set taskSet"
    by simp_all
qed

lemma reach_launchedIn:
  "launchedIn k (log (stateOf (iterations w n (startState t0)))) =
     (if k < cycles (stateOf (iterations w n (startState t0))) then taskSet else [])"
proof (cases rule: run_cases [of w n "startState t0"])
  case (Running s)
  with Running_clock [OF Running] Running_log(4) [OF Running] show ?thesis by simp
next
  case (Hung s)
  from Hung show ?thesis by (rule Hung_log) (simp add: Hung)
qed

lemma reach_live:
  assumes "\<And>k. k < n \<Longrightarrow> Pending \<notin> w k ` set taskSet"
  shows "\<exists>s. iterations w n (startState t0) = Running s"
  using assms
proof (induction n)
  case 0
  then show ?case by simp
next
  case (Suc n)
  then obtain s where r: "iterations w n (startState t0) = Running s"
    by (metis less_Suc_eq)
  from Running_clock [OF r] have "cycles s = n" by simp
  with Suc.prems [of n] have "Pending \<notin> w (cycles s) ` set taskSet" by simp
  with body_Running [of w s] r show ?case
    by (simp add: iterations_snoc del: iterations.simps(2))
qed

lemma reach_starved:
  assumes "w k t = Pending"
  shows "cycles (stateOf (iterations w n (startState t0))) \<le> Suc k"
    and "k < n \<Longrightarrow> \<exists>s. iterations w n (startState t0) = Hung s"
proof -
  have p: "Pending \<in> w k ` set taskSet"
    using assms taskSet_all [of t] by (metis image_eqI)
  have "cycles (stateOf (iterations w n (startState t0))) \<le> Suc k
      \<and> (k < n \<longrightarrow> (\<exists>s. iterations w n (startState t0) = Hung s))"
  proof (cases rule: run_cases [of w n "startState t0"])
    case (Running s)
    from Running_settled [OF Running, of k] p have "\<not> k < n" by blast
    with Running_clock [OF Running] Running show ?thesis by simp
  next
    case (Hung s)
    from Hung show ?thesis
    proof (rule Hung_log)
      fix c
      assume c: "cycles s = Suc c"
        and "\<And>k. k < c \<Longrightarrow> Pending \<notin> w k ` set taskSet"
      with p have "\<not> k < c" by blast
      with c Hung show ?thesis by simp
    qed
  qed
  then show "cycles (stateOf (iterations w n (startState t0))) \<le> Suc k"
    and "k < n \<Longrightarrow> \<exists>s. iterations w n (startState t0) = Hung s"
    by simp_all
qed

subsection \<open>What the loop does depends on the delays only\<close>

lemma actions_append: "actions (xs @ ys) = actions xs @ actions ys"
  by (induction xs rule: actions.induct) simp_all

lemma actions_invokes: "actions (map (\<lambda>t. Invoke k t tm) ts) = map (\<lambda>t. Launch k t tm) ts"
  by (induction ts) simp_all

lemma actions_settlement: "actions (settlement k t0 z) = []"
  by (cases "(k, t0, z)" rule: settlement.cases) simp_all

lemma actions_settlements: "actions (settlements k t0 ts ps) = []"
proof -
  have "actions (concat (map (settlement k t0) zs)) = []" for zs
    by (induction zs) (simp_all add: actions_append actions_settlement)
  then show ?thesis by (simp add: settlements_def)
qed

lemma collect_timing:
  assumes "\<And>t. timing (w1 k t) = timing (w2 k t)"
  shows "map_option fst (collect (map (w1 k) ts)) = map_option fst (collect (map (w2 k) ts))"
proof (induction ts)
  case Nil
  then show ?case by simp
next
  case (Cons t ts)
  show ?case
  proof (cases "w1 k t")
    case Pending
    with assms [of t] have "w2 k t = Pending" by (cases "w2 k t") simp_all
    with Pending show ?thesis by simp
  next
    case (Settles d r)
    with assms [of t] obtain r' where "w2 k t = Settles d r'" by (cases "w2 k t") simp_all
    with Settles Cons.IH show ?thesis
      by (cases "collect (map (w1 k) ts)"; cases "collect (map (w2 k) ts)") auto
  qed
qed

lemma timing_hangs:
  assumes "\<And>t. timing (w1 k t) = timing (w2 k t)"
  shows "Pending \<in> w1 k ` set taskSet \<longleftrightarrow> Pending \<in> w2 k ` set taskSet"
  using collect_timing [of w1 k w2 taskSet, OF assms]
    collect_None_iff [of "map (w1 k) taskSet"] collect_None_iff [of "map (w2 k) taskSet"]
  by (cases "collect (map (w1 k) taskSet)"; cases "collect (map (w2 k) taskSet)") simp_all

lemma timing_span:
  assumes "\<And>t. timing (w1 k t) = timing (w2 k t)"
  shows "span w1 k = span w2 k"
  using collect_timing [of w1 k w2 taskSet, OF assms]
  by (cases "collect (map (w1 k) taskSet)"; cases "collect (map (w2 k) taskSet)")
    (auto simp: span_def)

lemma body_behaviour:
  assumes t: "\<And>k t. timing (w1 k t) = timing (w2 k t)" and v: "view s1 = view s2"
  shows "behaviour (mainLoopBody w1 s1) = behaviour (mainLoopBody w2 s2)"
proof -
  from v have e: "now s1 = now s2" "cycles s1 = cycles s2" "actions (log s1) = actions (log s2)"
    by (simp_all add: view_def)
  show ?thesis
  proof (cases "Pending \<in> w1 (cycles s1) ` set taskSet")
    case True
    with timing_hangs [of w1 "cycles s1" w2, OF t] e
    have "Pending \<in> w2 (cycles s2) ` set taskSet" by simp
    with True show ?thesis
      by (simp add: body_Hung view_def e actions_append actions_invokes actions_settlements)
  next
    case False
    with timing_hangs [of w1 "cycles s1" w2, OF t] e
    have "Pending \<notin> w2 (cycles s2) ` set taskSet" by simp
    with False timing_span [of w1 "cycles s1" w2, OF t] show ?thesis
      by (simp add: body_Running view_def e actions_append actions_invokes actions_settlements)
  qed
qed

lemma iterations_behaviour:
  assumes t: "\<And>k t. timing (w1 k t) = timing (w2 k t)"
  shows "view s1 = view s2 \<Longrightarrow> behaviour (iterations w1 n s1) = behaviour (iterations w2 n s2)"
proof (induction n arbitrary: s1 s2)
  case 0
  then show ?case by simp
next
  case (Suc n)
  from body_behaviour [of w1 w2 s1 s2, OF t Suc.prems]
  have b: "behaviour (mainLoopBody w1 s1) = behaviour (mainLoopBody w2 s2)" .
  show ?case
  proof (cases "mainLoopBody w1 s1")
    case (Running a1)
    with b obtain a2 where r2: "mainLoopBody w2 s2 = Running a2" and "view a1 = view a2"
      by (cases "mainLoopBody w2 s2") simp_all
    with Running Suc.IH [of a1 a2] show ?thesis by simp
  next
    case (Hung a1)
    with b obtain a2 where r2: "mainLoopBody w2 s2 = Hung a2" and "view a1 = view a2"
      by (cases "mainLoopBody w2 s2") simp_all
    with Hung show ?thesis by simp
  next
    case (Crashed r a1)
    then show ?thesis by (simp add: body_not_Crashed)
  qed
qed

subsection \<open>The observed state\<close>

lemma observe_Invoke:
  "Invoke k t tm \<in> set (log (observe w t0 n)) \<longleftrightarrow>
     k < cycles (observe w t0 n) \<and> tm = launchTime w t0 k"
  unfolding observe_def by (rule reach_Invoke)

lemma observe_Settled:
  "Settled k t r tm \<in> set (log (observe w t0 n)) \<longleftrightarrow>
     k < cycles (observe w t0 n) \<and> (\<exists>d. w k t = Settles d r \<and> tm = launchTime w t0 k + d)"
  unfolding observe_def by (rule reach_Settled)

lemma observe_launchedIn:
  "launchedIn k (log (observe w t0 n)) = (if k < cycles (observe w t0 n) then taskSet else [])"
  unfolding observe_def by (rule reach_launchedIn)

lemma taskSet_distinct: "distinct taskSet"
  by (simp add: taskSet_def)

lemma taskSet_count: "count_list taskSet t = 1"
  by (cases t) (simp_all add: taskSet_def)

lemma observe_Timer:
  assumes "Timer k ms tm \<in> set (log (observe w t0 n))"
  shows "k < cycles (observe w t0 n)" and "ms = pacingDelay"
    and "tm = launchTime w t0 k + span w k" and "Pending \<notin> w k ` set taskSet"
  using reach_Timer [of k ms tm w n t0] assms
  unfolding observe_def by auto

lemma observe_completed:
  assumes "Suc k < cycles (observe w t0 n)"
  shows "Timer k pacingDelay (launchTime w t0 k + span w k) \<in> set (log (observe w t0 n))"
    and "Pending \<notin> w k ` set taskSet"
  using reach_completed [of k w n t0] assms
  unfolding observe_def by auto

lemma settles_if_not_Pending:
  assumes "Pending \<notin> w k ` set taskSet"
  shows "\<exists>d r. w k j = Settles d r"
proof (cases "w k j")
  case (Settles d r)
  then show ?thesis by blast
next
  case Pending
  with taskSet_all [of j] have "Pending \<in> w k ` set taskSet" by (metis image_eqI)
  with assms show ?thesis by simp
qed

lemma startMainLoop_iterations:
  "iterations w n s = Running s' \<Longrightarrow> startMainLoop w s = startMainLoop w s'"
proof (induction n arbitrary: s)
  case 0
  then show ?case by simp
next
  case (Suc n)
  from Suc.prems obtain s1 where b: "mainLoopBody w s = Running s1"
    and r: "iterations w n s1 = Running s'"
    by (cases "mainLoopBody w s") simp_all
  have "startMainLoop w s = startMainLoop w s1"
    by (subst startMainLoop.simps) (simp add: b)
  with Suc.IH [OF r] show ?case by simp
qed

subsection \<open>The result array of one cycle\<close>

lemma collect_results:
  "collect ps = Some (m, rs) \<Longrightarrow>
     length rs = length ps \<and> (\<forall>p<length ps. \<exists>d. ps ! p = Settles d (rs ! p) \<and> d \<le> m)"
proof (induction ps arbitrary: m rs rule: collect.induct)
  case 1
  then show ?case by simp
next
  case (2 ps)
  then show ?case by simp
next
  case (3 d r ps)
  then obtain m' rs' where c: "collect ps = Some (m', rs')"
    and m: "m = max d m'" and rs: "rs = r # rs'"
    by (auto split: option.splits)
  from "3.IH" [OF c] have len: "length rs' = length ps"
    and nth: "\<And>p. p < length ps \<Longrightarrow> \<exists>d'. ps ! p = Settles d' (rs' ! p) \<and> d' \<le> m'"
    by simp_all
  have "\<exists>d'. (Settles d r # ps) ! p = Settles d' (rs ! p) \<and> d' \<le> m"
    if "p < length (Settles d r # ps)" for p
  proof (cases p)
    case 0
    then show ?thesis by (simp add: rs m)
  next
    case (Suc p')
    with that have "p' < length ps" by simp
    from nth [OF this] obtain d' where "ps ! p' = Settles d' (rs' ! p')" and "d' \<le> m'"
      by blast
    with Suc show ?thesis by (simp add: rs m)
  qed
  with len rs show ?case by simp
qed

lemma allSettled_cycle:
  fixes w :: "('r, 'v) world"
  assumes "Pending \<notin> w k ` set taskSet"
  shows "\<exists>rs. (allSettled (map (w k) taskSet) :: ('r, ('r, 'v) settled list) promise)
                = Settles (span w k) (Fulfilled rs)
           \<and> length rs = length taskSet
           \<and> (\<forall>p<length taskSet. \<exists>d. w k (taskSet ! p) = Settles d (rs ! p) \<and> d \<le> span w k)"
proof -
  from assms have "collect (map (w k) taskSet) \<noteq> None"
    by (simp add: collect_None_iff)
  then obtain m rs where c: "collect (map (w k) taskSet) = Some (m, rs)"
    by auto
  then have m: "span w k = m" by (simp add: span_def)
  from collect_results [OF c]
  have "length rs = length taskSet"
    and "\<forall>p<length taskSet. \<exists>d. w k (taskSet ! p) = Settles d (rs ! p) \<and> d \<le> m"
    by simp_all
  with c m show ?thesis by (simp add: allSettled_def)
qed

lemma allSettled_not_Rejected: "allSettled ps \<noteq> Settles m (Rejected q)"
  by (cases "collect ps") (auto simp: allSettled_def)

section \<open>The claims\<close>

text \<open>
  Claim C1 (fault isolation). Suppose the promise of task \<open>i\<close> is rejected in cycle \<open>k\<close>.
  \<^item> No run of the loop ends with an exception, and the promise that the loop awaits in
    cycle \<open>k\<close> is never rejected.
  \<^item> If every task of cycle \<open>k\<close> settles, the awaited promise is fulfilled with an array
    of one result per task, in the order of the task set; the rejection is one of its
    entries. It is fulfilled after a delay \<open>m\<close> that is at least the delay of every task
    of the cycle, and the pass started in cycle \<open>k\<close> ends at the head of the loop,
    \<open>m + pacingDelay\<close> later.
  \<^item> If another task of cycle \<open>k\<close> stays pending, the rejection does not release the
    loop: the pass is suspended for ever and \<^verbatim>\<open>sleep\<close> is never called for cycle \<open>k\<close>.
  \<^item> If cycle \<open>k\<close> is launched, all five tasks are called in it, and the rejection and
    every other settlement of the cycle are in the log.
  \<^item> When \<^verbatim>\<open>sleep\<close> is called for cycle \<open>k\<close>, every task of the cycle has settled, no
    later than that call.
  \<^item> If no promise stays pending, rejected or not, then after \<open>n\<close> passes the loop is
    again at its head and has launched \<open>n\<close> cycles.
\<close>

theorem fault_isolation:
  fixes w :: "('r, 'v) world"
  assumes "w k i = Settles d (Rejected r)"
  shows "(\<forall>q s. iterations w n (startState t0) \<noteq> Crashed q s)
       \<and> (\<forall>m q. (allSettled (map (w k) taskSet) :: ('r, ('r, 'v) settled list) promise)
                  \<noteq> Settles m (Rejected q))
       \<and> ((\<forall>j. w k j \<noteq> Pending) \<longrightarrow>
            (\<exists>m rs. (allSettled (map (w k) taskSet) :: ('r, ('r, 'v) settled list) promise)
                      = Settles m (Fulfilled rs)
                \<and> length rs = length taskSet
                \<and> Rejected r \<in> set rs
                \<and> (\<forall>p<length taskSet. \<exists>d'. w k (taskSet ! p) = Settles d' (rs ! p) \<and> d' \<le> m)
                \<and> (\<forall>s. cycles s = k \<longrightarrow>
                      (\<exists>s'. mainLoopBody w s = Running s'
                           \<and> now s' = now s + m + pacingDelay \<and> cycles s' = Suc k))))
       \<and> (\<forall>j s. w k j = Pending \<and> cycles s = k \<longrightarrow> (\<exists>s'. mainLoopBody w s = Hung s'))
       \<and> (\<forall>j ms tm. w k j = Pending \<longrightarrow> Timer k ms tm \<notin> set (log (observe w t0 n)))
       \<and> (k < cycles (observe w t0 n) \<longrightarrow>
            Settled k i (Rejected r) (launchTime w t0 k + d) \<in> set (log (observe w t0 n))
          \<and> launchedIn k (log (observe w t0 n)) = taskSet
          \<and> (\<forall>j d' r'. w k j = Settles d' r' \<longrightarrow>
                Settled k j r' (launchTime w t0 k + d') \<in> set (log (observe w t0 n))))
       \<and> (\<forall>ms tm. Timer k ms tm \<in> set (log (observe w t0 n)) \<longrightarrow>
            (\<forall>j. \<exists>r' t'. Settled k j r' t' \<in> set (log (observe w t0 n)) \<and> t' \<le> tm))
       \<and> ((\<forall>c j. w c j \<noteq> Pending) \<longrightarrow>
            (\<exists>s. iterations w n (startState t0) = Running s \<and> cycles s = n))"
proof (intro conjI)
  show "\<forall>q s. iterations w n (startState t0) \<noteq> Crashed q s"
    by (simp add: iterations_not_Crashed)
next
  show "\<forall>m q. (allSettled (map (w k) taskSet) :: ('r, ('r, 'v) settled list) promise)
                  \<noteq> Settles m (Rejected q)"
    by (simp add: allSettled_not_Rejected)
next
  show "(\<forall>j. w k j \<noteq> Pending) \<longrightarrow>
            (\<exists>m rs. (allSettled (map (w k) taskSet) :: ('r, ('r, 'v) settled list) promise)
                      = Settles m (Fulfilled rs)
                \<and> length rs = length taskSet
                \<and> Rejected r \<in> set rs
                \<and> (\<forall>p<length taskSet. \<exists>d'. w k (taskSet ! p) = Settles d' (rs ! p) \<and> d' \<le> m)
                \<and> (\<forall>s. cycles s = k \<longrightarrow>
                      (\<exists>s'. mainLoopBody w s = Running s'
                           \<and> now s' = now s + m + pacingDelay \<and> cycles s' = Suc k)))"
  proof
    assume a: "\<forall>j. w k j \<noteq> Pending"
    have np: "Pending \<notin> w k ` set taskSet"
    proof
      assume "Pending \<in> w k ` set taskSet"
      then obtain j where "Pending = w k j" by (rule imageE)
      with a show False by metis
    qed
    from allSettled_cycle [of w k, OF np] obtain rs
      where res: "(allSettled (map (w k) taskSet) :: ('r, ('r, 'v) settled list) promise)
                = Settles (span w k) (Fulfilled rs)"
        and len: "length rs = length taskSet"
        and nth: "\<forall>p<length taskSet. \<exists>d'. w k (taskSet ! p) = Settles d' (rs ! p)
                    \<and> d' \<le> span w k"
      by blast
    have mem: "Rejected r \<in> set rs"
    proof -
      from taskSet_all [of i] obtain p where p: "p < length taskSet" and i: "taskSet ! p = i"
        by (auto simp: in_set_conv_nth)
      from nth p obtain d' where "w k (taskSet ! p) = Settles d' (rs ! p)" by blast
      with i assms have "rs ! p = Rejected r" by simp
      with p len show ?thesis by (metis nth_mem)
    qed
    have body: "\<exists>s'. mainLoopBody w s = Running s'
                 \<and> now s' = now s + span w k + pacingDelay \<and> cycles s' = Suc k"
      if "cycles s = k" for s :: "('r, 'v) loop_state"
      using body_Running [of w s] np that by simp
    from res len mem nth body
    show "\<exists>m rs. (allSettled (map (w k) taskSet) :: ('r, ('r, 'v) settled list) promise)
                      = Settles m (Fulfilled rs)
                \<and> length rs = length taskSet
                \<and> Rejected r \<in> set rs
                \<and> (\<forall>p<length taskSet. \<exists>d'. w k (taskSet ! p) = Settles d' (rs ! p) \<and> d' \<le> m)
                \<and> (\<forall>s. cycles s = k \<longrightarrow>
                      (\<exists>s'. mainLoopBody w s = Running s'
                           \<and> now s' = now s + m + pacingDelay \<and> cycles s' = Suc k))"
      by blast
  qed
next
  show "\<forall>j s. w k j = Pending \<and> cycles s = k \<longrightarrow> (\<exists>s'. mainLoopBody w s = Hung s')"
  proof (intro allI impI)
    fix j and s :: "('r, 'v) loop_state"
    assume a: "w k j = Pending \<and> cycles s = k"
    with taskSet_all [of j] have "Pending \<in> w (cycles s) ` set taskSet"
      by (metis image_eqI)
    with body_Hung [of w s] show "\<exists>s'. mainLoopBody w s = Hung s'" by simp
  qed
next
  show "\<forall>j ms tm. w k j = Pending \<longrightarrow> Timer k ms tm \<notin> set (log (observe w t0 n))"
  proof (intro allI impI notI)
    fix j ms tm
    assume j: "w k j = Pending" and t: "Timer k ms tm \<in> set (log (observe w t0 n))"
    from observe_Timer(4) [OF t] have "Pending \<notin> w k ` set taskSet" .
    with j taskSet_all [of j] show False by (metis image_eqI)
  qed
next
  show "k < cycles (observe w t0 n) \<longrightarrow>
            Settled k i (Rejected r) (launchTime w t0 k + d) \<in> set (log (observe w t0 n))
          \<and> launchedIn k (log (observe w t0 n)) = taskSet
          \<and> (\<forall>j d' r'. w k j = Settles d' r' \<longrightarrow>
                Settled k j r' (launchTime w t0 k + d') \<in> set (log (observe w t0 n)))"
    using assms by (simp add: observe_Settled observe_launchedIn)
next
  show "\<forall>ms tm. Timer k ms tm \<in> set (log (observe w t0 n)) \<longrightarrow>
            (\<forall>j. \<exists>r' t'. Settled k j r' t' \<in> set (log (observe w t0 n)) \<and> t' \<le> tm)"
  proof (intro allI impI)
    fix ms tm j
    assume t: "Timer k ms tm \<in> set (log (observe w t0 n))"
    from observe_Timer [OF t] have c: "k < cycles (observe w t0 n)"
      and tm: "tm = launchTime w t0 k + span w k"
      and np: "Pending \<notin> w k ` set taskSet"
      by simp_all
    from settles_if_not_Pending [of w k j, OF np] obtain d' r' where j: "w k j = Settles d' r'"
      by blast
    from span_bound [of w k j d' r', OF np j] have "d' \<le> span w k" .
    with c j tm have "Settled k j r' (launchTime w t0 k + d') \<in> set (log (observe w t0 n))
        \<and> launchTime w t0 k + d' \<le> tm"
      by (simp add: observe_Settled)
    then show "\<exists>r' t'. Settled k j r' t' \<in> set (log (observe w t0 n)) \<and> t' \<le> tm"
      by blast
  qed
next
  show "(\<forall>c j. w c j \<noteq> Pending) \<longrightarrow>
            (\<exists>s. iterations w n (startState t0) = Running s \<and> cycles s = n)"
  proof
    assume a: "\<forall>c j. w c j \<noteq> Pending"
    have "Pending \<notin> w c ` set taskSet" for c
    proof
      assume "Pending \<in> w c ` set taskSet"
      then obtain j where "Pending = w c j" by (rule imageE)
      with a show False by metis
    qed
    then obtain s where s: "iterations w n (startState t0) = Running s"
      using reach_live [of n w t0] by blast
    with Running_clock [OF s]
    show "\<exists>s. iterations w n (startState t0) = Running s \<and> cycles s = n"
      by simp
  qed
qed

text \<open>
  Two concrete runs to which the theorem applies: one where every task of the cycle
  settles, one where a sibling of the rejected task stays pending.
\<close>

theorem fault_isolation_witness:
  "(flaky 1 WatchDownloads = Settles 7 (Rejected ''offline'')
   \<and> (\<forall>j. flaky 1 j \<noteq> Pending)
   \<and> cycles (startState 0\<lparr>cycles := 1\<rparr> :: (string, unit) loop_state) = 1
   \<and> 1 < cycles (observe flaky 0 2)
   \<and> Timer 1 1500 1514 \<in> set (log (observe flaky 0 2))
   \<and> (\<forall>c j. flaky c j \<noteq> Pending)
   \<and> (\<forall>q s. iterations flaky 2 (startState 0) \<noteq> Crashed q s)
   \<and> (\<exists>m rs. (allSettled (map (flaky 1) taskSet) :: (string, (string, unit) settled list) promise)
                = Settles m (Fulfilled rs)
          \<and> length rs = length taskSet
          \<and> Rejected ''offline'' \<in> set rs
          \<and> (\<exists>s'. mainLoopBody flaky (startState 0\<lparr>cycles := 1\<rparr>) = Running s'
                 \<and> now s' = now (startState 0\<lparr>cycles := 1\<rparr> :: (string, unit) loop_state)
                            + m + pacingDelay
                 \<and> cycles s' = Suc 1))
   \<and> Settled 1 WatchDownloads (Rejected ''offline'') (launchTime flaky 0 1 + 7)
        \<in> set (log (observe flaky 0 2))
   \<and> launchedIn 1 (log (observe flaky 0 2)) = taskSet
   \<and> Settled 1 GetSeedStatus (Fulfilled ()) (launchTime flaky 0 1 + 3)
        \<in> set (log (observe flaky 0 2))
   \<and> (\<forall>j. \<exists>r' t'. Settled 1 j r' t' \<in> set (log (observe flaky 0 2)) \<and> t' \<le> 1514)
   \<and> (\<exists>s. iterations flaky 2 (startState 0) = Running s \<and> cycles s = 2))
   \<and> (torn 0 WatchDownloads = Settles 7 (Rejected ''offline'')
   \<and> torn 0 GetSeedStatus = Pending
   \<and> cycles (startState 0 :: (string, unit) loop_state) = 0
   \<and> (\<exists>s'. mainLoopBody torn (startState 0) = Hung s')
   \<and> (\<forall>ms tm. Timer 0 ms tm \<notin> set (log (observe torn 0 2)))
   \<and> (\<forall>q s. iterations torn 2 (startState 0) \<noteq> Crashed q s))"
proof (rule conjI)
  have h: "flaky 1 WatchDownloads = Settles 7 (Rejected ''offline'')"
    by (simp add: flaky_def)
  have a: "\<forall>j. flaky 1 j \<noteq> Pending"
    by (simp add: flaky_def)
  have e: "cycles (startState 0\<lparr>cycles := 1\<rparr> :: (string, unit) loop_state) = 1"
    by simp
  have c: "1 < cycles (observe flaky 0 2)"
    by code_simp
  have t: "Timer 1 1500 1514 \<in> set (log (observe flaky 0 2))"
    by code_simp
  have p: "\<forall>c j. flaky c j \<noteq> Pending"
    by (simp add: flaky_def)
  have g: "flaky 1 GetSeedStatus = Settles 3 (Fulfilled ())"
    by (simp add: flaky_def)
  from fault_isolation [where w = flaky and k = 1 and i = WatchDownloads and n = 2
      and ?t0.0 = 0, OF h] h a e c t p g
  show "flaky 1 WatchDownloads = Settles 7 (Rejected ''offline'')
   \<and> (\<forall>j. flaky 1 j \<noteq> Pending)
   \<and> cycles (startState 0\<lparr>cycles := 1\<rparr> :: (string, unit) loop_state) = 1
   \<and> 1 < cycles (observe flaky 0 2)
   \<and> Timer 1 1500 1514 \<in> set (log (observe flaky 0 2))
   \<and> (\<forall>c j. flaky c j \<noteq> Pending)
   \<and> (\<forall>q s. iterations flaky 2 (startState 0) \<noteq> Crashed q s)
   \<and> (\<exists>m rs. (allSettled (map (flaky 1) taskSet) :: (string, (string, unit) settled list) promise)
                = Settles m (Fulfilled rs)
          \<and> length rs = length taskSet
          \<and> Rejected ''offline'' \<in> set rs
          \<and> (\<exists>s'. mainLoopBody flaky (startState 0\<lparr>cycles := 1\<rparr>) = Running s'
                 \<and> now s' = now (startState 0\<lparr>cycles := 1\<rparr> :: (string, unit) loop_state)
                            + m + pacingDelay
                 \<and> cycles s' = Suc 1))
   \<and> Settled 1 WatchDownloads (Rejected ''offline'') (launchTime flaky 0 1 + 7)
        \<in> set (log (observe flaky 0 2))
   \<and> launchedIn 1 (log (observe flaky 0 2)) = taskSet
   \<and> Settled 1 GetSeedStatus (Fulfilled ()) (launchTime flaky 0 1 + 3)
        \<in> set (log (observe flaky 0 2))
   \<and> (\<forall>j. \<exists>r' t'. Settled 1 j r' t' \<in> set (log (observe flaky 0 2)) \<and> t' \<le> 1514)
   \<and> (\<exists>s. iterations flaky 2 (startState 0) = Running s \<and> cycles s = 2)"
    by (intro conjI) blast+
next
  have h: "torn 0 WatchDownloads = Settles 7 (Rejected ''offline'')"
    by (simp add: torn_def)
  have k: "torn 0 GetSeedStatus = Pending"
    by (simp add: torn_def)
  have e: "cycles (startState 0 :: (string, unit) loop_state) = 0"
    by (simp add: startState_def)
  from fault_isolation [where w = torn and k = 0 and i = WatchDownloads and n = 2
      and ?t0.0 = 0, OF h] h k e
  show "torn 0 WatchDownloads = Settles 7 (Rejected ''offline'')
   \<and> torn 0 GetSeedStatus = Pending
   \<and> cycles (startState 0 :: (string, unit) loop_state) = 0
   \<and> (\<exists>s'. mainLoopBody torn (startState 0) = Hung s')
   \<and> (\<forall>ms tm. Timer 0 ms tm \<notin> set (log (observe torn 0 2)))
   \<and> (\<forall>q s. iterations torn 2 (startState 0) \<noteq> Crashed q s)"
    by (intro conjI) blast+
qed

text \<open>
  Claim C2 (no overlap, pacing). If a task of cycle \<open>k + 1\<close> is called at time \<open>tm\<close>,
  then every task of cycle \<open>k\<close> has settled, \<^verbatim>\<open>sleep\<close> was called with the pacing delay
  at the instant \<open>ts\<close> of the last settlement of cycle \<open>k\<close>, and \<open>tm\<close> is exactly
  \<open>ts + pacingDelay\<close>; so every settlement of cycle \<open>k\<close> is at least the pacing delay
  before \<open>tm\<close>.
\<close>

theorem no_overlap_pacing:
  assumes "Invoke (Suc k) t tm \<in> set (log (observe w t0 n))"
  shows "(\<forall>j. \<exists>r t'. Settled k j r t' \<in> set (log (observe w t0 n)))
       \<and> (\<exists>ts. Timer k pacingDelay ts \<in> set (log (observe w t0 n))
             \<and> tm = ts + pacingDelay
             \<and> (\<exists>j r. Settled k j r ts \<in> set (log (observe w t0 n)))
             \<and> (\<forall>j r t'. Settled k j r t' \<in> set (log (observe w t0 n)) \<longrightarrow>
                   t' \<le> ts \<and> t' + pacingDelay \<le> tm))"
proof -
  let ?S = "observe w t0 n"
  let ?ts = "launchTime w t0 k + span w k"
  from assms have c: "Suc k < cycles ?S" and tm: "tm = launchTime w t0 (Suc k)"
    by (simp_all add: observe_Invoke)
  from c have k: "k < cycles ?S" by simp
  from observe_completed [OF c]
  have timer: "Timer k pacingDelay ?ts \<in> set (log ?S)"
    and np: "Pending \<notin> w k ` set taskSet"
    by simp_all
  have all: "\<exists>r t'. Settled k j r t' \<in> set (log ?S)" for j
  proof -
    from settles_if_not_Pending [of w k j, OF np] obtain d r where "w k j = Settles d r" by blast
    with k have "Settled k j r (launchTime w t0 k + d) \<in> set (log ?S)"
      by (simp add: observe_Settled)
    then show ?thesis by blast
  qed
  have last: "\<exists>j r. Settled k j r ?ts \<in> set (log ?S)"
  proof -
    from span_attained [of w k, OF np] obtain j r where "w k j = Settles (span w k) r" by blast
    with k have "Settled k j r ?ts \<in> set (log ?S)"
      by (simp add: observe_Settled)
    then show ?thesis by blast
  qed
  have before: "t' \<le> ?ts \<and> t' + pacingDelay \<le> tm"
    if "Settled k j r t' \<in> set (log ?S)" for j r t'
  proof -
    from that obtain d where d: "w k j = Settles d r" and t': "t' = launchTime w t0 k + d"
      by (auto simp: observe_Settled)
    from span_bound [of w k j d r, OF np d] have "d \<le> span w k" .
    with t' tm show ?thesis by simp
  qed
  from tm have "tm = ?ts + pacingDelay" by simp
  with all timer last before show ?thesis by blast
qed

text \<open>A concrete run to which the theorem applies.\<close>

theorem no_overlap_pacing_witness:
  "Invoke (Suc 0) WatchProcesses 1507 \<in> set (log (observe flaky 0 2))
   \<and> (\<forall>j. \<exists>r t'. Settled 0 j r t' \<in> set (log (observe flaky 0 2)))
   \<and> (\<exists>ts. Timer 0 pacingDelay ts \<in> set (log (observe flaky 0 2))
         \<and> 1507 = ts + pacingDelay
         \<and> (\<exists>j r. Settled 0 j r ts \<in> set (log (observe flaky 0 2)))
         \<and> (\<forall>j r t'. Settled 0 j r t' \<in> set (log (observe flaky 0 2)) \<longrightarrow>
               t' \<le> ts \<and> t' + pacingDelay \<le> 1507))"
proof -
  have h: "Invoke (Suc 0) WatchProcesses 1507 \<in> set (log (observe flaky 0 2))"
    by code_simp
  from h no_overlap_pacing [OF h] show ?thesis by (rule conjI)
qed

text \<open>
  Claim C3 (liveness). The promise of \<^verbatim>\<open>startMainLoop\<close> never settles, in any world and
  from any state. If every promise of every task settles, then after \<open>N\<close> passes the
  loop is at its head, the cycle count is at least \<open>N\<close>, and each of the cycles
  \<open>0, ..., N - 1\<close> has called the five tasks.
\<close>

theorem never_returns_unbounded_cycles:
  "startMainLoop w s = None
   \<and> ((\<forall>k t. w k t \<noteq> Pending) \<longrightarrow>
        (\<exists>s'. iterations w N (startState t0) = Running s' \<and> N \<le> cycles s'
              \<and> (\<forall>k<N. launchedIn k (log s') = taskSet)))"
proof (intro conjI impI)
  show "startMainLoop w s = None"
    by (rule startMainLoop_never)
next
  assume a: "\<forall>k t. w k t \<noteq> Pending"
  have "Pending \<notin> w c ` set taskSet" for c
  proof
    assume "Pending \<in> w c ` set taskSet"
    then obtain j where "Pending = w c j" by (rule imageE)
    with a show False by metis
  qed
  then obtain s' where s': "iterations w N (startState t0) = Running s'"
    using reach_live [of N w t0] by blast
  from Running_clock [OF s'] have "N \<le> cycles s'" by simp
  moreover have "\<forall>k<N. launchedIn k (log s') = taskSet"
    by (simp add: Running_log(4) [OF s'])
  ultimately show "\<exists>s'. iterations w N (startState t0) = Running s' \<and> N \<le> cycles s'
              \<and> (\<forall>k<N. launchedIn k (log s') = taskSet)"
    using s' by blast
qed

text \<open>A concrete run to which the theorem applies.\<close>

theorem never_returns_unbounded_cycles_witness:
  "(\<forall>k t. flaky k t \<noteq> Pending)
   \<and> startMainLoop flaky (startState 0) = None
   \<and> (\<exists>s'. iterations flaky 2 (startState 0) = Running s' \<and> 2 \<le> cycles s'
          \<and> (\<forall>k<2. launchedIn k (log s') = taskSet))"
proof -
  have h: "\<forall>k t. flaky k t \<noteq> Pending"
    by (simp add: flaky_def)
  from never_returns_unbounded_cycles [where w = flaky and s = "startState 0" and N = 2 and ?t0.0 = 0] h
  show ?thesis by blast
qed

text \<open>
  Claim C4 (exactly once, in the declared order). In every cycle that is launched, the
  calls, in the order in which they are made, are the task set in its written order;
  no task is called twice and each task is called exactly once.
\<close>

theorem exactly_once_in_order:
  assumes "k < cycles (observe w t0 n)"
  shows "launchedIn k (log (observe w t0 n)) = taskSet
       \<and> distinct (launchedIn k (log (observe w t0 n)))
       \<and> (\<forall>t. count_list (launchedIn k (log (observe w t0 n))) t = 1)"
  using assms by (simp add: observe_launchedIn taskSet_distinct taskSet_count)

text \<open>A concrete run to which the theorem applies.\<close>

theorem exactly_once_in_order_witness:
  "1 < cycles (observe flaky 0 2)
   \<and> launchedIn 1 (log (observe flaky 0 2)) = taskSet
   \<and> distinct (launchedIn 1 (log (observe flaky 0 2)))
   \<and> (\<forall>t. count_list (launchedIn 1 (log (observe flaky 0 2))) t = 1)"
proof -
  have h: "1 < cycles (observe flaky 0 2)"
    by code_simp
  from h exactly_once_in_order [OF h] show ?thesis by (rule conjI)
qed

text \<open>
  Claim C5 (resolver identity). Awaiting \<^verbatim>\<open>getDownloadUrl(url)\<close> resumes with \<open>url\<close>
  itself, for every string, and no time passes.
\<close>

theorem resolver_identity: "await (getDownloadUrl url) st = Resumed url st"
  by (simp add: getDownloadUrl_def await_def)

text \<open>
  Claim C6 (the resolver always succeeds). The promise of \<^verbatim>\<open>getDownloadUrl(url)\<close> is
  never left pending and never rejected: it is fulfilled.
\<close>

theorem resolver_always_succeeds:
  "getDownloadUrl url \<noteq> Pending
   \<and> (\<forall>d r. getDownloadUrl url \<noteq> Settles d (Rejected r))
   \<and> (\<exists>d v. getDownloadUrl url = Settles d (Fulfilled v))"
  by (simp add: getDownloadUrl_def)

text \<open>
  Claim C7 (the outcomes are discarded). Two worlds whose promises settle after the same
  delays, with whatever outcomes, give the same behaviour of the loop after any number of
  passes: the same position (at the head, suspended), the same clock and cycle count, and
  the same calls of tasks and of \<^verbatim>\<open>sleep\<close> at the same instants.
\<close>

theorem outcome_independence:
  assumes "\<forall>k t. timing (w1 k t) = timing (w2 k t)"
  shows "behaviour (iterations w1 n (startState t0)) = behaviour (iterations w2 n (startState t0))"
proof (rule iterations_behaviour)
  show "timing (w1 k t) = timing (w2 k t)" for k t using assms by simp
  show "view (startState t0 :: ('a, 'b) loop_state) = view (startState t0 :: ('c, 'd) loop_state)"
    by (simp add: view_def startState_def)
qed

text \<open>A concrete run to which the theorem applies.\<close>

theorem outcome_independence_witness:
  "(\<forall>k t. timing (flaky k t) = timing (steady k t))
   \<and> flaky 0 WatchDownloads \<noteq> steady 0 WatchDownloads
   \<and> behaviour (iterations flaky 4 (startState 0)) = behaviour (iterations steady 4 (startState 0))"
proof -
  have h: "\<forall>k t. timing (flaky k t) = timing (steady k t)"
    by (simp add: flaky_def steady_def)
  have d: "flaky 0 WatchDownloads \<noteq> steady 0 WatchDownloads"
    by (simp add: flaky_def steady_def)
  from h d outcome_independence [OF h, of 4 0] show ?thesis by simp
qed

text \<open>
  Claim C8 (fixed task set). Any two cycles launched in runs of the same loop call the same
  tasks in the same order, however long the runs are: the tasks of the task set, no more
  and no fewer.
\<close>

theorem fixed_task_set:
  assumes "j < cycles (observe w t0 n)" and "k < cycles (observe w t0 m)"
  shows "launchedIn j (log (observe w t0 n)) = launchedIn k (log (observe w t0 m))
       \<and> set (launchedIn k (log (observe w t0 m))) = set taskSet
       \<and> length (launchedIn k (log (observe w t0 m))) = length taskSet"
  using assms by (simp add: observe_launchedIn)

text \<open>A concrete run to which the theorem applies.\<close>

theorem fixed_task_set_witness:
  "0 < cycles (observe flaky 0 1) \<and> 1 < cycles (observe flaky 0 2)
   \<and> launchedIn 0 (log (observe flaky 0 1)) = launchedIn 1 (log (observe flaky 0 2))
   \<and> set (launchedIn 1 (log (observe flaky 0 2))) = set taskSet
   \<and> length (launchedIn 1 (log (observe flaky 0 2))) = length taskSet"
proof -
  have h0: "0 < cycles (observe flaky 0 1)"
    by code_simp
  have h1: "1 < cycles (observe flaky 0 2)"
    by code_simp
  from h0 h1 fixed_task_set [OF h0 h1] show ?thesis by blast
qed

text \<open>
  Claim C9 (starvation). If a promise of cycle \<open>k\<close> never settles, then however many
  passes are observed, no task is called in a cycle after \<open>k\<close>, \<^verbatim>\<open>sleep\<close> is never
  called for cycle \<open>k\<close> or a later one, the cycle count stays at most \<open>k + 1\<close>, and a run
  of more than \<open>k\<close> passes is suspended for ever.
\<close>

theorem starvation:
  assumes "w k t = Pending"
  shows "(\<forall>c j tm. Invoke c j tm \<in> set (log (observe w t0 n)) \<longrightarrow> c \<le> k)
       \<and> (\<forall>c ms tm. Timer c ms tm \<in> set (log (observe w t0 n)) \<longrightarrow> c < k)
       \<and> cycles (observe w t0 n) \<le> Suc k
       \<and> (k < n \<longrightarrow> (\<exists>s. iterations w n (startState t0) = Hung s))"
proof (intro conjI allI impI)
  have c: "cycles (observe w t0 n) \<le> Suc k"
    unfolding observe_def using assms by (rule reach_starved(1))
  show "cycles (observe w t0 n) \<le> Suc k" by (rule c)
  show "c' \<le> k" if "Invoke c' j tm \<in> set (log (observe w t0 n))" for c' j tm
    using that c by (simp add: observe_Invoke)
  show "c' < k" if "Timer c' ms tm \<in> set (log (observe w t0 n))" for c' ms tm
  proof -
    from observe_Timer(1) [OF that] c have "c' \<le> k" by simp
    moreover have "c' \<noteq> k"
    proof
      assume "c' = k"
      with observe_Timer(4) [OF that] have "Pending \<notin> w k ` set taskSet" by simp
      with assms taskSet_all [of t] show False by (metis image_eqI)
    qed
    ultimately show ?thesis by simp
  qed
  show "\<exists>s. iterations w n (startState t0) = Hung s" if "k < n"
    using assms that by (rule reach_starved(2))
qed

text \<open>A concrete run to which the theorem applies.\<close>

theorem starvation_witness:
  "stuck 1 GetSeedStatus = Pending \<and> (1::nat) < 3
   \<and> (\<forall>j tm. Invoke 2 j tm \<notin> set (log (observe stuck 0 3)))
   \<and> (\<forall>ms tm. Timer 1 ms tm \<notin> set (log (observe stuck 0 3)))
   \<and> cycles (observe stuck 0 3) \<le> Suc 1
   \<and> (\<exists>s. iterations stuck 3 (startState 0) = Hung s)"
proof -
  have h: "stuck 1 GetSeedStatus = Pending"
    by (simp add: stuck_def)
  from starvation [where w = stuck and k = 1 and t = GetSeedStatus and n = 3 and ?t0.0 = 0, OF h] h
  show ?thesis by fastforce
qed

text \<open>
  Claim C10 (hard-coded delay and task set). The pacing delay is 1500 and the task set is
  the list of the five monitors; in every world, every call of \<^verbatim>\<open>sleep\<close> asks for 1500
  milliseconds and every launched cycle calls that list. The state of the loop holds
  neither.
\<close>

theorem hardcoded_delay_and_tasks:
  "pacingDelay = 1500
   \<and> taskSet =
       [WatchProcesses, WatchDownloads, WatchAchievements, GetSeedStatus,
        CheckForUpdatePeriodically]
   \<and> (Timer c ms tm \<in> set (log (observe w t0 n)) \<longrightarrow> ms = 1500)
   \<and> (c < cycles (observe w t0 n) \<longrightarrow>
        launchedIn c (log (observe w t0 n)) =
          [WatchProcesses, WatchDownloads, WatchAchievements, GetSeedStatus,
           CheckForUpdatePeriodically])"
proof (intro conjI impI)
  show "pacingDelay = 1500" by (simp add: pacingDelay_def)
  show "taskSet =
       [WatchProcesses, WatchDownloads, WatchAchievements, GetSeedStatus,
        CheckForUpdatePeriodically]"
    by (simp add: taskSet_def)
  show "ms = 1500" if "Timer c ms tm \<in> set (log (observe w t0 n))"
    using observe_Timer(2) [OF that] by (simp add: pacingDelay_def)
  show "launchedIn c (log (observe w t0 n)) =
          [WatchProcesses, WatchDownloads, WatchAchievements, GetSeedStatus,
           CheckForUpdatePeriodically]"
    if "c < cycles (observe w t0 n)"
    using that by (simp add: observe_launchedIn taskSet_def)
qed

text \<open>A concrete run to which the theorem applies.\<close>

theorem hardcoded_delay_and_tasks_witness:
  "Timer 0 1500 7 \<in> set (log (observe flaky 0 1))
   \<and> 0 < cycles (observe flaky 0 1)
   \<and> pacingDelay = 1500
   \<and> launchedIn 0 (log (observe flaky 0 1)) =
          [WatchProcesses, WatchDownloads, WatchAchievements, GetSeedStatus,
           CheckForUpdatePeriodically]"
proof -
  have t: "Timer 0 1500 7 \<in> set (log (observe flaky 0 1))"
    by code_simp
  have c: "0 < cycles (observe flaky 0 1)"
    by code_simp
  from hardcoded_delay_and_tasks [where w = flaky and c = 0 and ms = 1500 and tm = 7
      and n = 1 and ?t0.0 = 0] t c
  show ?thesis by blast
qed

end
